theory Spec2Isabelle
  imports Main "HOL-Library.AList" "HOL-Library.Word"
begin

unbundle bit_operations_syntax

section \<open>Data model\<close>

text \<open>
  A JavaScript \<open>Set<T>\<close> iterates in insertion order and holds no duplicates: it is a
  list, and \<open>add\<close> appends an element only when it is absent.  A \<open>Map<K, V>\<close> iterates
  its keys in insertion order and \<open>set\<close> on a present key keeps the key's position: it
  is an association list, \<open>get\<close> is \<open>map_of\<close> and \<open>set\<close> is \<open>AList.update\<close>.
  The field \<open>edges: Map<T, Set<T>>\<close> of \<open>DirectedGraph<T>\<close> is the whole state of a graph.
\<close>

type_synonym 'a jsset = "'a list"

type_synonym 'a graph = "('a \<times> 'a jsset) list"

text \<open>
  The numbers of the in-degree table: integers, and \<open>NaN\<close>, which is what
  \<open>undefined - 1\<close> evaluates to.  The counts are numbers of edges, far below the
  bound (2 to the power 53) up to which the arithmetic of JavaScript numbers is exact.
\<close>

datatype num = Num int | NaN

datatype error =
    MissingEntrypoint
  | InvalidMode
  | EntrypointNotFound
  | NoSource
  | CycleDetected
  | TypeError

definition has :: "'a \<Rightarrow> ('a \<times> 'b) list \<Rightarrow> bool" where
  "has k m = (k \<in> set (map fst m))"

definition set_add :: "'a \<Rightarrow> 'a jsset \<Rightarrow> 'a jsset" where
  "set_add x s = (if x \<in> set s then s else s @ [x])"

text \<open>\<open>Sets.addAll(s, xs)\<close>\<close>

definition Sets_addAll :: "'a jsset \<Rightarrow> 'a list \<Rightarrow> 'a jsset" where
  "Sets_addAll s xs = fold set_add xs s"

section \<open>The builder\<close>

definition ensureAll :: "'a list \<Rightarrow> 'a graph \<Rightarrow> 'a graph" where
  "ensureAll nodes g =
     fold (\<lambda>node g'. if \<not> has node g' then AList.update node [] g' else g') nodes g"

text \<open>
  \<open>addAll(from, ...to)\<close>.  The set found (or created) under \<open>from\<close> is the object held
  by the map, so adding to it changes the map's entry in place.
\<close>

definition addAll :: "'a \<Rightarrow> 'a list \<Rightarrow> 'a graph \<Rightarrow> 'a graph" where
  "addAll frm to g =
     (let g1 = (case map_of g frm of None \<Rightarrow> AList.update frm [] g | Some d \<Rightarrow> g);
          dependencies = (case map_of g frm of None \<Rightarrow> [] | Some d \<Rightarrow> d);
          g2 = AList.update frm (Sets_addAll dependencies to) g1
      in ensureAll to g2)"

text \<open>A graph built from the empty one by a sequence of \<open>addAll\<close> calls.\<close>

definition build :: "('a \<times> 'a list) list \<Rightarrow> 'a graph" where
  "build calls = fold (\<lambda>(frm, to) g. addAll frm to g) calls []"

section \<open>Cycle detection\<close>

text \<open>
  The inner \<open>while\<close> loop of \<open>isCyclic\<close>: \<open>None\<close> is the early \<open>return true\<close>,
  \<open>Some seenOnThisWalk\<close> the normal exit of the loop.
\<close>

function isCyclic_walk :: "'a graph \<Rightarrow> 'a list \<Rightarrow> 'a jsset \<Rightarrow> 'a jsset option" where
  "isCyclic_walk g toVisit seenOnThisWalk =
     (case toVisit of
        [] \<Rightarrow> Some seenOnThisWalk
      | nextNode # rest \<Rightarrow>
          if nextNode \<in> set seenOnThisWalk then None
          else isCyclic_walk g
                 (rest @ (case map_of g nextNode of None \<Rightarrow> [] | Some nextNodeChildren \<Rightarrow> nextNodeChildren))
                 (set_add nextNode seenOnThisWalk))"
  by pat_completeness auto

definition dests :: "'a graph \<Rightarrow> 'a set" where
  "dests g = \<Union> (set ` snd ` set g)"

lemma map_of_dests: "map_of g k = Some ds \<Longrightarrow> set ds \<subseteq> dests g"
  unfolding dests_def by (force dest: map_of_SomeD)

termination isCyclic_walk
proof (relation "measure (\<lambda>(g, toVisit, seen). card ((set toVisit \<union> dests g) - set seen))", goal_cases)
  case 1
  show ?case by simp
next
  case (2 g toVisit seen nextNode rest)
  let ?ch = "case map_of g nextNode of None \<Rightarrow> [] | Some c \<Rightarrow> c"
  have ch: "set ?ch \<subseteq> dests g"
    using map_of_dests[of g nextNode] by (cases "map_of g nextNode") auto
  have fin: "finite ((set toVisit \<union> dests g) - set seen)"
    by (simp add: dests_def)
  have "(set (rest @ ?ch) \<union> dests g) - set (set_add nextNode seen)
        \<subset> (set toVisit \<union> dests g) - set seen"
    using 2 ch by (auto simp: set_add_def)
  from psubset_card_mono[OF fin this] show ?case by simp
qed

declare isCyclic_walk.simps [simp del]

text \<open>
  The outer \<open>for\<close> loop over \<open>this.edges.keys()\<close>.  Spreading \<open>this.edges.get(node)!\<close>
  throws a TypeError when the lookup is undefined.
\<close>

fun isCyclic_nodes :: "'a graph \<Rightarrow> 'a list \<Rightarrow> 'a jsset \<Rightarrow> error + bool" where
  "isCyclic_nodes g [] seenOnAllWalks = Inr False"
| "isCyclic_nodes g (node # nodes) seenOnAllWalks =
     (if node \<in> set seenOnAllWalks then isCyclic_nodes g nodes seenOnAllWalks
      else (case map_of g node of
              None \<Rightarrow> Inl TypeError
            | Some children \<Rightarrow>
                (case isCyclic_walk g children [] of
                   None \<Rightarrow> Inr True
                 | Some seenOnThisWalk \<Rightarrow>
                     isCyclic_nodes g nodes (Sets_addAll seenOnAllWalks seenOnThisWalk))))"

definition isCyclic :: "'a graph \<Rightarrow> error + bool" where
  "isCyclic g = isCyclic_nodes g (map fst g) []"

section \<open>In-degrees and topological sort\<close>

text \<open>\<open>inDegrees.get(neighbour) || 0\<close>: a missing entry, \<open>0\<close> and \<open>NaN\<close> are falsy.\<close>

fun or_zero :: "num option \<Rightarrow> num" where
  "or_zero (Some (Num n)) = Num n"
| "or_zero (Some NaN) = Num 0"
| "or_zero None = Num 0"

fun num_add :: "num \<Rightarrow> int \<Rightarrow> num" where
  "num_add (Num n) k = Num (n + k)"
| "num_add NaN k = NaN"

text \<open>\<open>inDegrees.get(neighbour)! - 1\<close>: \<open>undefined - 1\<close> is \<open>NaN\<close>.\<close>

fun minus_one :: "num option \<Rightarrow> num" where
  "minus_one (Some v) = num_add v (- 1)"
| "minus_one None = NaN"

definition count_neighbour :: "'a \<Rightarrow> ('a \<times> num) list \<Rightarrow> ('a \<times> num) list" where
  "count_neighbour neighbour inDegrees =
     (let count = or_zero (map_of inDegrees neighbour)
      in AList.update neighbour (num_add count 1) inDegrees)"

text \<open>The body of the loop of \<open>indegrees\<close>, for one entry of the map.\<close>

definition indegrees_step :: "'a \<times> 'a jsset \<Rightarrow> ('a \<times> num) list \<Rightarrow> ('a \<times> num) list" where
  "indegrees_step = (\<lambda>(node, neighbours) inDegrees.
     fold count_neighbour neighbours
       (if \<not> has node inDegrees then AList.update node (Num 0) inDegrees else inDegrees))"

definition indegrees :: "'a graph \<Rightarrow> ('a \<times> num) list" where
  "indegrees g = fold indegrees_step g []"

text \<open>The body of the \<open>for\<close> loop over the neighbours of the node popped.\<close>

definition relax :: "'a \<Rightarrow> 'a list \<times> ('a \<times> num) list \<Rightarrow> 'a list \<times> ('a \<times> num) list" where
  "relax neighbour st =
     (let neighbourIndegree = minus_one (map_of (snd st) neighbour);
          inDegrees = AList.update neighbour neighbourIndegree (snd st)
      in if neighbourIndegree = Num 0 then (fst st @ [neighbour], inDegrees)
         else (fst st, inDegrees))"

definition positive :: "('a \<times> num) list \<Rightarrow> nat" where
  "positive inDegrees = length (filter (\<lambda>kv. \<exists>n. snd kv = Num n \<and> 0 < n) inDegrees)"

text \<open>The \<open>while (sources.length > 0)\<close> loop: \<open>pop\<close> takes the last element.\<close>

function topo_loop :: "'a graph \<Rightarrow> 'a list \<Rightarrow> ('a \<times> num) list \<Rightarrow> 'a list \<Rightarrow> 'a list" where
  "topo_loop g sources inDegrees topologicalOrdering =
     (if sources = [] then topologicalOrdering
      else
        (let node = last sources;
             neighbours = (case map_of g node of None \<Rightarrow> [] | Some ns \<Rightarrow> ns);
             st = fold relax neighbours (butlast sources, inDegrees)
         in topo_loop g (fst st) (snd st) (topologicalOrdering @ [node])))"
  by pat_completeness auto

lemma positive_update:
  "positive (AList.update k v al) + (case map_of al k of Some (Num n) \<Rightarrow> if 0 < n then 1 else 0 | _ \<Rightarrow> 0)
   = positive al + (case v of Num n \<Rightarrow> if 0 < n then 1 else 0 | NaN \<Rightarrow> 0)"
  by (induction al) (auto simp: positive_def split: num.splits)

lemma relax_measure:
  "length (fst (relax nb st)) + positive (snd (relax nb st)) \<le> length (fst st) + positive (snd st)"
proof (cases "map_of (snd st) nb")
  case None
  then show ?thesis
    using positive_update[of nb NaN "snd st"] by (simp add: relax_def)
next
  case (Some v)
  show ?thesis
  proof (cases v)
    case (Num n)
    with Some show ?thesis
      using positive_update[of nb "Num (n - 1)" "snd st"]
      by (cases "n = 1") (auto simp: relax_def Let_def split: if_splits)
  next
    case NaN
    with Some show ?thesis
      using positive_update[of nb NaN "snd st"] by (simp add: relax_def)
  qed
qed

lemma fold_relax_measure:
  "length (fst (fold relax ns st)) + positive (snd (fold relax ns st))
   \<le> length (fst st) + positive (snd st)"
proof (induction ns arbitrary: st)
  case Nil
  show ?case by simp
next
  case (Cons n ns)
  from Cons[of "relax n st"] relax_measure[of n st] show ?case by simp
qed

termination topo_loop
proof (relation "measure (\<lambda>(g, sources, inDegrees, ord). length sources + positive inDegrees)", goal_cases)
  case 1
  show ?case by simp
next
  case (2 g sources inDegrees ord node neighbours st)
  from fold_relax_measure[of neighbours "(butlast sources, inDegrees)"] 2
  show ?case by (cases sources rule: rev_cases) auto
qed

declare topo_loop.simps [simp del]

text \<open>
  \<open>topoSort\<close>: the two assertions are the two errors; \<open>this.edges.size\<close> is the number
  of entries of the map.
\<close>

definition topoSort :: "'a graph \<Rightarrow> error + 'a list" where
  "topoSort g =
     (let inDegrees = indegrees g;
          sources = map fst (filter (\<lambda>(node, count). count = Num 0) inDegrees)
      in if \<not> (length sources > 0) then Inl NoSource
         else
           (let topologicalOrdering = topo_loop g sources inDegrees []
            in if length topologicalOrdering = length g then Inr topologicalOrdering
               else Inl CycleDetected))"

section \<open>Inversion, reachability, induced subgraph\<close>

text \<open>The body of the loop of \<open>invert\<close>, for one entry of the map.\<close>

definition invert_step :: "'a \<times> 'a jsset \<Rightarrow> 'a graph \<Rightarrow> 'a graph" where
  "invert_step = (\<lambda>(edge, deps) inverted.
     fold (\<lambda>dep inv. addAll dep [edge] inv) deps (addAll edge [] inverted))"

definition invert :: "'a graph \<Rightarrow> 'a graph" where
  "invert g = fold invert_step g []"

text \<open>
  The loop of \<open>walk\<close>: \<open>shift\<close> takes the first element of the queue; iterating
  \<open>this.edges.get(next)!\<close> throws a TypeError when \<open>next\<close> is not a key.
\<close>

function walk_loop :: "'a graph \<Rightarrow> 'a list \<Rightarrow> 'a jsset \<Rightarrow> error + 'a jsset" where
  "walk_loop g toVisit seen =
     (case toVisit of
        [] \<Rightarrow> Inr seen
      | nxt # rest \<Rightarrow>
          (case map_of g nxt of
             None \<Rightarrow> Inl TypeError
           | Some deps \<Rightarrow>
               walk_loop g (rest @ filter (\<lambda>dep. dep \<notin> set seen) deps) (set_add nxt seen)))"
  by pat_completeness auto

text \<open>
  Termination of the loop of \<open>walk\<close>.  A node is marked seen only when it is taken off
  the queue, so the queue can hold several copies of a node, and a copy taken off after
  the node was marked still pushes the node's unseen neighbours again.  Every queue
  entry is given a weight that bounds the work it can still cause: the weight depends on
  how many keys are still unseen and on whether the entry itself is seen, and taking an
  entry off the queue replaces it by at most \<open>fanout g\<close> entries of the next smaller weight.
\<close>

fun weight :: "nat \<Rightarrow> nat \<Rightarrow> nat" where
  "weight D 0 = 1"
| "weight D (Suc k) = 1 + D * weight D k"

definition fanout :: "'a graph \<Rightarrow> nat" where
  "fanout g = sum_list (map (\<lambda>kv. length (snd kv)) g)"

definition unseen :: "'a graph \<Rightarrow> 'a list \<Rightarrow> nat" where
  "unseen g seen = card (set (map fst g) - set seen)"

definition rank :: "'a graph \<Rightarrow> 'a list \<Rightarrow> 'a \<Rightarrow> nat" where
  "rank g seen x = (if x \<in> set seen then 2 * unseen g seen + 1 else 2 * unseen g seen)"

definition walk_measure :: "'a graph \<Rightarrow> 'a list \<Rightarrow> 'a list \<Rightarrow> nat" where
  "walk_measure g toVisit seen = sum_list (map (\<lambda>x. weight (fanout g) (rank g seen x)) toVisit)"

lemma weight_mono: "k \<le> k' \<Longrightarrow> weight D k \<le> weight D k'"
proof (induction k' arbitrary: k)
  case 0
  then show ?case by simp
next
  case (Suc k')
  show ?case
  proof (cases k)
    case 0
    then show ?thesis by simp
  next
    case (Suc j)
    with Suc.prems have "j \<le> k'" by simp
    from Suc.IH[OF this] Suc show ?thesis by simp
  qed
qed

lemma map_of_fanout: "map_of g k = Some ds \<Longrightarrow> length ds \<le> fanout g"
  unfolding fanout_def by (induction g) (auto split: if_splits)

lemma sum_list_bound: "(\<And>x. x \<in> set xs \<Longrightarrow> f x \<le> (c::nat)) \<Longrightarrow> sum_list (map f xs) \<le> length xs * c"
  by (induction xs) (auto simp: add_mono)

lemma sum_list_le: "(\<And>x. x \<in> set xs \<Longrightarrow> f x \<le> (h x::nat)) \<Longrightarrow> sum_list (map f xs) \<le> sum_list (map h xs)"
  by (induction xs) (auto simp: add_mono)

lemma walk_measure_step:
  assumes look: "map_of g nxt = Some deps"
  shows "walk_measure g (rest @ filter (\<lambda>dep. dep \<notin> set seen) deps) (set_add nxt seen)
         < walk_measure g (nxt # rest) seen"
proof -
  let ?D = "fanout g"
  let ?new = "filter (\<lambda>dep. dep \<notin> set seen) deps"
  let ?u = "unseen g seen"
  have len: "length ?new \<le> ?D"
    using map_of_fanout[OF look] length_filter_le[of _ deps] by (meson le_trans)
  show ?thesis
  proof (cases "nxt \<in> set seen")
    case True
    then have same: "set_add nxt seen = seen" by (simp add: set_add_def)
    have "sum_list (map (\<lambda>x. weight ?D (rank g seen x)) ?new) \<le> length ?new * weight ?D (2 * ?u)"
      by (rule sum_list_bound) (simp add: rank_def)
    also have "\<dots> \<le> ?D * weight ?D (2 * ?u)" using len by (rule mult_le_mono1)
    finally have "sum_list (map (\<lambda>x. weight ?D (rank g seen x)) ?new) < weight ?D (rank g seen nxt)"
      using True by (simp add: rank_def)
    then show ?thesis by (simp add: walk_measure_def same)
  next
    case False
    let ?s = "set_add nxt seen"
    have s: "set ?s = insert nxt (set seen)" by (auto simp: set_add_def)
    have key: "nxt \<in> set (map fst g)" using look by (metis map_of_eq_None_iff option.distinct(1) set_map)
    have d: "set (map fst g) - set ?s = (set (map fst g) - set seen) - {nxt}" using s by auto
    have m: "nxt \<in> set (map fst g) - set seen" using key False by simp
    have "card (set (map fst g) - set seen) = Suc (card ((set (map fst g) - set seen) - {nxt}))"
      by (rule card.remove[OF _ m]) simp
    then have u: "?u = Suc (unseen g ?s)"
      unfolding unseen_def d .
    have r: "rank g ?s x \<le> 2 * unseen g ?s + 1" for x by (simp add: rank_def)
    have "sum_list (map (\<lambda>x. weight ?D (rank g ?s x)) ?new) \<le> length ?new * weight ?D (2 * unseen g ?s + 1)"
      by (rule sum_list_bound) (rule weight_mono[OF r])
    also have "\<dots> \<le> ?D * weight ?D (2 * unseen g ?s + 1)" using len by (rule mult_le_mono1)
    finally have new: "sum_list (map (\<lambda>x. weight ?D (rank g ?s x)) ?new) < weight ?D (rank g seen nxt)"
      using False u by (simp add: rank_def)
    have "rank g ?s x \<le> rank g seen x" for x
      using u s by (auto simp: rank_def)
    then have "sum_list (map (\<lambda>x. weight ?D (rank g ?s x)) rest)
               \<le> sum_list (map (\<lambda>x. weight ?D (rank g seen x)) rest)"
      by (intro sum_list_le weight_mono)
    with new show ?thesis by (simp add: walk_measure_def)
  qed
qed

termination walk_loop
proof (relation "measure (\<lambda>(g, toVisit, seen). walk_measure g toVisit seen)", goal_cases)
  case 1
  show ?case by simp
next
  case (2 g toVisit seen nxt rest deps)
  from walk_measure_step[of g nxt deps rest seen] 2 show ?case by simp
qed

declare walk_loop.simps [simp del]

definition walk :: "'a \<Rightarrow> 'a graph \<Rightarrow> error + 'a jsset" where
  "walk start g = walk_loop g [start] []"

definition subgraph :: "'a jsset \<Rightarrow> 'a graph \<Rightarrow> 'a graph" where
  "subgraph keep g =
     fold (\<lambda>(node, deps) sub.
             if \<not> (node \<in> set keep) then sub
             else addAll node (filter (\<lambda>dep. dep \<in> set keep) deps) sub)
          g []"

section \<open>Rendering\<close>

definition quoted :: "string \<Rightarrow> string" where
  "quoted s = [CHR 0x22] @ s @ [CHR 0x22]"

definition line :: "string \<Rightarrow> string" where
  "line s = s @ [CHR 0x0A]"

definition printAsGraphVis :: "string graph \<Rightarrow> string" where
  "printAsGraphVis g =
     line ''digraph G {'' @
     concat (map (\<lambda>(pkg, deps).
                    line (''  '' @ quoted pkg) @
                    concat (map (\<lambda>dep. line (''  '' @ quoted pkg @ '' -> '' @ quoted dep)) deps))
                 g) @
     line ''}''"

section \<open>The command line and the main workflow\<close>

text \<open>
  The members \<open>Mode.TOPO\<close>, \<open>Mode.VIZ\<close> and \<open>Mode.ALL\<close> of \<open>enum Mode\<close>; the bitwise
  operators of JavaScript work on 32-bit integers.
\<close>

definition Mode_TOPO :: "32 word" where
  "Mode_TOPO = push_bit 1 1"

definition Mode_VIZ :: "32 word" where
  "Mode_VIZ = push_bit 2 1"

definition Mode_ALL :: "32 word" where
  "Mode_ALL = Mode_TOPO AND Mode_VIZ"

record cli_args =
  debug :: bool
  entrypoint :: string
  mode :: "32 word"

definition parseCliArgs :: "string list \<Rightarrow> error + cli_args" where
  "parseCliArgs argv =
     (let args0 = drop 2 argv;
          debug' = (''--debug'' \<in> set args0);
          args = (if debug' then filter (\<lambda>arg. arg \<noteq> ''--debug'') args0 else args0)
      in case args of
           [] \<Rightarrow> Inl MissingEntrypoint
         | entrypoint' # others \<Rightarrow>
             (case others of
                [] \<Rightarrow> Inr \<lparr>debug = debug', entrypoint = entrypoint', mode = Mode_ALL\<rparr>
              | modeRaw # _ \<Rightarrow>
                  if modeRaw = ''topo''
                  then Inr \<lparr>debug = debug', entrypoint = entrypoint', mode = Mode_TOPO\<rparr>
                  else if modeRaw = ''viz''
                  then Inr \<lparr>debug = debug', entrypoint = entrypoint', mode = Mode_VIZ\<rparr>
                  else Inl InvalidMode))"

fun join :: "string list \<Rightarrow> string" where
  "join [] = []"
| "join [x] = x"
| "join (x # y # ys) = x @ [CHR 0x0A] @ join (y # ys)"

text \<open>
  \<open>main\<close>, from the parsed manifests on: \<open>manifests\<close> are the (name, dependencies)
  pairs of the manifests that were read and have a name, in the order of the input
  lines.  The result is the list of the texts given to \<open>console.log\<close>; a number is
  truthy when it is not zero.
\<close>

definition main :: "string list \<Rightarrow> (string \<times> string list) list \<Rightarrow> error + string list" where
  "main argv manifests =
     (case parseCliArgs argv of
        Inl e \<Rightarrow> Inl e
      | Inr a \<Rightarrow>
          (let graph = build manifests
           in if \<not> has (entrypoint a) graph then Inl EntrypointNotFound
              else
                (case walk (entrypoint a) (invert graph) of
                   Inl e \<Rightarrow> Inl e
                 | Inr transitivelyDependsOnEntrypoint \<Rightarrow>
                     (let graph' = subgraph transitivelyDependsOnEntrypoint graph
                      in case (if mode a AND Mode_TOPO \<noteq> 0
                               then (case topoSort graph' of
                                       Inl e \<Rightarrow> Inl e
                                     | Inr sorted_nodes \<Rightarrow> Inr [join sorted_nodes])
                               else Inr [])
                         of Inl e \<Rightarrow> Inl e
                          | Inr printed \<Rightarrow>
                              Inr (printed @
                                   (if mode a AND Mode_VIZ \<noteq> 0 then [printAsGraphVis graph'] else []))))))"

section \<open>Notions the properties are stated with\<close>

definition keys :: "'a graph \<Rightarrow> 'a set" where
  "keys g = set (map fst g)"

text \<open>The edge relation: \<open>(a, b)\<close> when \<open>b\<close> is in the edge set stored under \<open>a\<close>.\<close>

definition edge_rel :: "'a graph \<Rightarrow> ('a \<times> 'a) set" where
  "edge_rel g = {(a, b). \<exists>ds. (a, ds) \<in> set g \<and> b \<in> set ds}"

text \<open>Node closure: every destination is a key.\<close>

definition closed :: "'a graph \<Rightarrow> bool" where
  "closed g = (\<forall>(k, ds) \<in> set g. \<forall>d \<in> set ds. has d g)"

text \<open>\<open>a\<close> occurs in \<open>xs\<close>, and strictly before the first occurrence of \<open>b\<close>.\<close>

definition before :: "'a list \<Rightarrow> 'a \<Rightarrow> 'a \<Rightarrow> bool" where
  "before xs a b = (\<exists>pre post. xs = pre @ a # post \<and> b \<notin> set pre \<and> b \<noteq> a \<and> b \<in> set post)"

text \<open>Every edge set is free of duplicates, as a \<open>Set\<close> is.\<close>

definition sets_distinct :: "'a graph \<Rightarrow> bool" where
  "sets_distinct g = (\<forall>(k, ds) \<in> set g. distinct ds)"

text \<open>The edges as a list, and a check that a rank function falls along every edge.\<close>

definition edge_list :: "'a graph \<Rightarrow> ('a \<times> 'a) list" where
  "edge_list g = concat (map (\<lambda>(a, ds). map (Pair a) ds) g)"

definition ranked :: "('a \<Rightarrow> nat) \<Rightarrow> 'a graph \<Rightarrow> bool" where
  "ranked f g = list_all (\<lambda>(a, b). f b < f a) (edge_list g)"

text \<open>
  The number of occurrences of a node in the edge sets, and the number of nodes with an
  edge into it.
\<close>

definition in_count :: "'a graph \<Rightarrow> 'a \<Rightarrow> nat" where
  "in_count g n = sum_list (map (\<lambda>(k, ds). count_list ds n) g)"

definition in_degree :: "'a graph \<Rightarrow> 'a \<Rightarrow> nat" where
  "in_degree g n = card {m. (m, n) \<in> edge_rel g}"

text \<open>
  An in-degree table that holds exactly the nodes of \<open>K\<close>, each with the number \<open>c\<close>
  gives it.
\<close>

definition counts :: "('a \<times> num) list \<Rightarrow> 'a set \<Rightarrow> ('a \<Rightarrow> nat) \<Rightarrow> bool" where
  "counts D K c \<longleftrightarrow>
     distinct (map fst D) \<and>
     (\<forall>n. map_of D n = (if n \<in> K then Some (Num (int (c n))) else None)) \<and>
     (\<forall>n. n \<notin> K \<longrightarrow> c n = 0)"

text \<open>
  The number of edge sets that hold \<open>n\<close> and belong to a node not yet in \<open>done\<close>: the
  in-degree of \<open>n\<close> that remains once the nodes of \<open>done\<close> are put out.
\<close>

definition pending :: "'a graph \<Rightarrow> 'a list \<Rightarrow> 'a \<Rightarrow> nat" where
  "pending g done n = length (filter (\<lambda>(k, ds). n \<in> set ds \<and> k \<notin> set done) g)"

text \<open>
  The invariant of the loop of \<open>topoSort\<close>, for the stack of sources, the in-degree
  table and the ordering put out so far.
\<close>

definition kahn_inv :: "'a graph \<Rightarrow> 'a list \<Rightarrow> ('a \<times> num) list \<Rightarrow> 'a list \<Rightarrow> bool" where
  "kahn_inv g sources inDegrees out \<longleftrightarrow>
     distinct (map fst inDegrees) \<and>
     (\<forall>n. n \<in> keys g \<longrightarrow> map_of inDegrees n = Some (Num (int (pending g out n)))) \<and>
     distinct sources \<and> distinct out \<and>
     set sources = {n. n \<in> keys g \<and> n \<notin> set out \<and> pending g out n = 0} \<and>
     set out \<subseteq> keys g \<and>
     (\<forall>a b. (a, b) \<in> edge_rel g \<longrightarrow> b \<in> set out \<longrightarrow> before out a b)"

section \<open>The example of the README\<close>

text \<open>
  The four packages of the example: \<open>one\<close> depends on \<open>two\<close> and \<open>three\<close>, both of which
  depend on \<open>four\<close>.  \<open>example_manifests\<close> lists them in the order of their names,
  \<open>readme_manifests\<close> in the order in which the rendering of the README shows them.
\<close>

definition example_manifests :: "(string \<times> string list) list" where
  "example_manifests =
     [(''one'', [''two'', ''three'']), (''two'', [''four'']), (''three'', [''four'']), (''four'', [])]"

definition readme_manifests :: "(string \<times> string list) list" where
  "readme_manifests =
     [(''three'', [''four'']), (''four'', []), (''one'', [''two'', ''three'']), (''two'', [''four''])]"

definition example_rank :: "string \<Rightarrow> nat" where
  "example_rank n = (if n = ''one'' then 3 else if n = ''four'' then 1 else 2)"

section \<open>Facts about the builder\<close>

lemma set_Sets_addAll: "set (Sets_addAll s xs) = set s \<union> set xs"
  unfolding Sets_addAll_def by (induction xs arbitrary: s) (auto simp: set_add_def)

lemma distinct_Sets_addAll: "distinct s \<Longrightarrow> distinct (Sets_addAll s xs)"
  unfolding Sets_addAll_def by (induction xs arbitrary: s) (auto simp: set_add_def)

lemma has_iff: "has k g \<longleftrightarrow> k \<in> keys g"
  by (simp add: has_def keys_def)

lemma keys_update: "keys (AList.update k v g) = insert k (keys g)"
  using AList.dom_update[of k v g] by (simp add: keys_def)

lemma keys_map_of: "k \<in> keys g \<longleftrightarrow> map_of g k \<noteq> None"
  by (simp add: keys_def map_of_eq_None_iff)

lemma ensureAll_Nil: "ensureAll [] g = g"
  by (simp add: ensureAll_def)

lemma ensureAll_Cons:
  "ensureAll (n # ns) g = ensureAll ns (if \<not> has n g then AList.update n [] g else g)"
  by (simp add: ensureAll_def)

lemma keys_ensureAll: "keys (ensureAll ns g) = keys g \<union> set ns"
  by (induction ns arbitrary: g) (auto simp: ensureAll_Nil ensureAll_Cons keys_update has_iff)

lemma distinct_ensureAll: "distinct (map fst g) \<Longrightarrow> distinct (map fst (ensureAll ns g))"
  by (induction ns arbitrary: g) (auto simp: ensureAll_Nil ensureAll_Cons AList.distinct_update)

lemma map_of_ensureAll:
  "map_of (ensureAll ns g) k = (if k \<in> set ns \<and> k \<notin> keys g then Some [] else map_of g k)"
proof (induction ns arbitrary: g)
  case Nil
  show ?case by (simp add: ensureAll_Nil)
next
  case (Cons n ns)
  show ?case
    unfolding ensureAll_Cons Cons.IH
    by (auto simp: keys_update has_iff AList.update_conv' keys_map_of)
qed

lemma keys_addAll: "keys (addAll frm to g) = insert frm (keys g \<union> set to)"
  by (auto simp: addAll_def keys_ensureAll keys_update split: option.splits)

lemma distinct_addAll: "distinct (map fst g) \<Longrightarrow> distinct (map fst (addAll frm to g))"
  by (auto simp: addAll_def distinct_ensureAll AList.distinct_update split: option.splits)

lemma map_of_addAll:
  "map_of (addAll frm to g) k =
     (if k = frm then Some (Sets_addAll (case map_of g frm of None \<Rightarrow> [] | Some d \<Rightarrow> d) to)
      else if k \<in> set to \<and> k \<notin> keys g then Some [] else map_of g k)"
  by (auto simp: addAll_def map_of_ensureAll keys_update AList.update_conv' keys_map_of
           split: option.splits)

lemma edge_rel_map_of:
  "distinct (map fst g) \<Longrightarrow> edge_rel g = {(a, b). \<exists>ds. map_of g a = Some ds \<and> b \<in> set ds}"
  by (auto simp: edge_rel_def)

lemma edge_rel_addAll:
  assumes "distinct (map fst g)"
  shows "edge_rel (addAll frm to g) = edge_rel g \<union> {frm} \<times> set to"
  unfolding edge_rel_map_of[OF assms] edge_rel_map_of[OF distinct_addAll[OF assms]]
  by (auto simp: map_of_addAll set_Sets_addAll keys_map_of split: option.splits if_splits)

lemma closed_iff: "closed g \<longleftrightarrow> Range (edge_rel g) \<subseteq> keys g"
  by (fastforce simp: closed_def edge_rel_def has_iff)

lemma closed_addAll:
  assumes "distinct (map fst g)" "closed g"
  shows "closed (addAll frm to g)"
  using assms(2) unfolding closed_iff edge_rel_addAll[OF assms(1)] keys_addAll by auto

lemma sets_distinct_map_of:
  "distinct (map fst g) \<Longrightarrow> sets_distinct g \<longleftrightarrow> (\<forall>k ds. map_of g k = Some ds \<longrightarrow> distinct ds)"
  unfolding sets_distinct_def by (simp add: split_def) (metis map_of_eq_Some_iff prod.collapse fst_conv snd_conv)

lemma sets_distinct_addAll:
  assumes "distinct (map fst g)" "sets_distinct g"
  shows "sets_distinct (addAll frm to g)"
proof -
  have old: "distinct ds" if "map_of g k = Some ds" for k ds
    using assms that sets_distinct_map_of[of g] by blast
  have "distinct ds" if look: "map_of (addAll frm to g) k = Some ds" for k ds
  proof (cases "k = frm")
    case True
    from look have ds: "ds = Sets_addAll (case map_of g frm of None \<Rightarrow> [] | Some d \<Rightarrow> d) to"
      unfolding map_of_addAll True by simp
    have "distinct (case map_of g frm of None \<Rightarrow> [] | Some d \<Rightarrow> d)"
      using old[of frm] by (cases "map_of g frm") simp_all
    then show ?thesis unfolding ds by (rule distinct_Sets_addAll)
  next
    case False
    show ?thesis
    proof (cases "k \<in> set to \<and> k \<notin> keys g")
      case True
      with False look show ?thesis unfolding map_of_addAll by simp
    next
      case no: False
      with False look have "map_of g k = Some ds" unfolding map_of_addAll by (simp split: if_splits)
      then show ?thesis by (rule old)
    qed
  qed
  then show ?thesis
    using sets_distinct_map_of[OF distinct_addAll[OF assms(1)], of frm to] by blast
qed

lemma build_Nil: "build [] = []"
  by (simp add: build_def)

lemma build_snoc: "build (calls @ [(frm, to)]) = addAll frm to (build calls)"
  by (simp add: build_def)

lemma build_distinct: "distinct (map fst (build calls))"
  by (induction calls rule: rev_induct) (auto simp: build_Nil build_snoc distinct_addAll)

lemma build_closed: "closed (build calls)"
proof (induction calls rule: rev_induct)
  case Nil
  show ?case by (simp add: build_Nil closed_def)
next
  case (snoc c calls)
  then show ?case
    by (cases c) (simp add: build_snoc closed_addAll build_distinct)
qed

lemma build_sets_distinct: "sets_distinct (build calls)"
proof (induction calls rule: rev_induct)
  case Nil
  show ?case by (simp add: build_Nil sets_distinct_def)
next
  case (snoc c calls)
  then show ?case
    by (cases c) (simp add: build_snoc sets_distinct_addAll build_distinct)
qed


section \<open>The example, evaluated\<close>

lemma build_example:
  "build example_manifests =
     [(''one'', [''two'', ''three'']), (''two'', [''four'']), (''three'', [''four'']), (''four'', [])]"
  unfolding example_manifests_def by code_simp

lemma has_example: "has ''four'' (build example_manifests)"
  unfolding build_example by (simp add: has_def)

lemma walk_example:
  "walk ''four'' (invert (build example_manifests)) = Inr [''four'', ''two'', ''three'', ''one'']"
  unfolding example_manifests_def by code_simp

lemma walk_readme:
  "walk ''four'' (invert (build readme_manifests)) = Inr [''four'', ''three'', ''two'', ''one'']"
  unfolding readme_manifests_def by code_simp

lemma topoSort_example:
  "topoSort (subgraph [''four'', ''two'', ''three'', ''one''] (build example_manifests))
   = Inr [''one'', ''three'', ''two'', ''four'']"
  unfolding example_manifests_def by code_simp

lemma topoSort_readme:
  "topoSort (subgraph [''four'', ''three'', ''two'', ''one''] (build readme_manifests))
   = Inr [''one'', ''three'', ''two'', ''four'']"
  unfolding readme_manifests_def by code_simp

lemma isCyclic_example: "isCyclic (build example_manifests) = Inr True"
  unfolding example_manifests_def by code_simp

lemma Mode_TOPO_eq: "Mode_TOPO = 2"
  by (simp add: Mode_TOPO_def)

lemma Mode_VIZ_eq: "Mode_VIZ = 4"
  by (simp add: Mode_VIZ_def)

lemma Mode_ALL_eq: "Mode_ALL = 0"
  unfolding Mode_ALL_def Mode_TOPO_eq Mode_VIZ_eq by simp

lemma parse_topo:
  "parseCliArgs [''node'', ''main.js'', ''four'', ''topo'']
     = Inr \<lparr>debug = False, entrypoint = ''four'', mode = Mode_TOPO\<rparr>"
  by (simp add: parseCliArgs_def)

lemma parse_no_mode:
  "parseCliArgs [''node'', ''main.js'', ''four'']
     = Inr \<lparr>debug = False, entrypoint = ''four'', mode = Mode_ALL\<rparr>"
  by (simp add: parseCliArgs_def)

lemma topo_bits: "Mode_TOPO \<noteq> 0" "Mode_TOPO AND Mode_VIZ = 0"
  unfolding Mode_TOPO_eq Mode_VIZ_eq by simp_all


lemma main_topo_example:
  "main [''node'', ''main.js'', ''four'', ''topo''] example_manifests
   = Inr [join [''one'', ''three'', ''two'', ''four'']]"
  unfolding main_def parse_topo
  by (simp add: has_example walk_example topoSort_example topo_bits del: join.simps)

lemma main_no_mode_example:
  "main [''node'', ''main.js'', ''four''] example_manifests = Inr []"
  unfolding main_def parse_no_mode
  by (simp add: has_example walk_example Mode_ALL_eq)


lemma edge_rel_list: "edge_rel g = set (edge_list g)"
  unfolding edge_rel_def edge_list_def by auto

lemma ranked_acyclic: "ranked f g \<Longrightarrow> acyclic (edge_rel g)"
  unfolding edge_rel_list ranked_def list_all_iff
  by (rule acyclicI_order[where f = f]) auto

lemma ranked_example: "ranked example_rank (build example_manifests)"
  unfolding example_manifests_def by code_simp

lemma acyclic_example: "acyclic (edge_rel (build example_manifests))"
  by (rule ranked_acyclic[OF ranked_example])

section \<open>Node closure\<close>

text \<open>
  C5: after every sequence of \<open>addAll\<close> calls, each with one source and any number of
  destinations, every node that occurs as a destination in an edge set is a key of the
  map.  Every prefix of a sequence of calls is a sequence of calls, so this is the
  state after every mutation.
\<close>

theorem node_closure: "closed (build calls)"
  by (rule build_closed)

theorem node_closure_witness:
  "closed (build [(''a'', [''b'', ''c'']), (''b'', [''d''])]) \<and>
   (''b'', ''d'') \<in> set (edge_list (build [(''a'', [''b'', ''c'']), (''b'', [''d''])])) \<and>
   has ''d'' (build [(''a'', [''b'', ''c'']), (''b'', [''d''])])"
proof -
  have "closed (build [(''a'', [''b'', ''c'']), (''b'', [''d''])])"
    by (rule node_closure)
  moreover have "(''b'', ''d'') \<in> set (edge_list (build [(''a'', [''b'', ''c'']), (''b'', [''d''])]))"
    by code_simp
  moreover have "has ''d'' (build [(''a'', [''b'', ''c'']), (''b'', [''d''])])"
    by code_simp
  ultimately show ?thesis by blast
qed

section \<open>The worked example\<close>

text \<open>
  C4: for the graph with the edges one -> two, one -> three, two -> four and
  three -> four and the entrypoint four, inverting, walking the inversion from four,
  taking the subgraph on the nodes walked and sorting it gives exactly one, three, two,
  four.  It holds for the packages added in the order of their names and in the order
  of the README, and \<open>main\<close> in mode \<open>topo\<close> prints these four names, one per line.
\<close>

theorem scenario_one:
  "(case walk ''four'' (invert (build example_manifests)) of
      Inl e \<Rightarrow> Inl e
    | Inr reached \<Rightarrow> topoSort (subgraph reached (build example_manifests)))
   = Inr [''one'', ''three'', ''two'', ''four''] \<and>
   (case walk ''four'' (invert (build readme_manifests)) of
      Inl e \<Rightarrow> Inl e
    | Inr reached \<Rightarrow> topoSort (subgraph reached (build readme_manifests)))
   = Inr [''one'', ''three'', ''two'', ''four''] \<and>
   main [''node'', ''main.js'', ''four'', ''topo''] example_manifests
   = Inr [join [''one'', ''three'', ''two'', ''four'']]"
  unfolding walk_example walk_readme main_topo_example
  by (simp add: topoSort_example topoSort_readme del: join.simps)

section \<open>The mode selected when no mode is given\<close>

text \<open>
  C3: without a mode argument both outputs should be printed.  They are not:
  \<open>Mode.ALL\<close> is \<open>TOPO & VIZ\<close>, which is 0, so both tests \<open>mode & Mode.TOPO\<close> and
  \<open>mode & Mode.VIZ\<close> are falsy: on the example, \<open>main\<close> called with the entrypoint
  alone prints nothing.
\<close>

theorem no_mode_prints_nothing:
  "Mode_ALL = 0 \<and>
   parseCliArgs [''node'', ''main.js'', ''four'']
     = Inr \<lparr>debug = False, entrypoint = ''four'', mode = 0\<rparr> \<and>
   main [''node'', ''main.js'', ''four''] example_manifests = Inr []"
  unfolding parse_no_mode main_no_mode_example Mode_ALL_eq by simp

section \<open>Cycle detection on a diamond\<close>

text \<open>
  C2: \<open>isCyclic\<close> should return true exactly when the graph has a directed cycle.
  It does not: the graph of the example has none (the rank 3, 2, 2, 1 of one, two,
  three, four falls along every edge), and \<open>isCyclic\<close> returns true on it: the walk
  from \<open>one\<close> reaches \<open>four\<close> through \<open>two\<close> and through \<open>three\<close>, and takes the
  second visit for a cycle.
\<close>

theorem isCyclic_diamond:
  "acyclic (edge_rel (build example_manifests)) \<and> isCyclic (build example_manifests) = Inr True"
  using acyclic_example isCyclic_example by blast

section \<open>Topological sort of the empty graph\<close>

text \<open>
  C9: \<open>topoSort\<close> on the graph with no node does not return the empty ordering.  The
  assertion that the list of sources is not empty is made before the loop whatever the
  size of the graph, so the call fails with the no-source error.
\<close>

theorem topoSort_empty: "topoSort ([] :: 'a graph) = Inl NoSource"
  by (simp add: topoSort_def indegrees_def)

section \<open>Inversion\<close>

lemma keys_Domain: "Domain (edge_rel g) \<subseteq> keys g"
  unfolding keys_def edge_rel_def by force

lemma invert_inner:
  assumes "distinct (map fst acc)"
  shows "distinct (map fst (fold (\<lambda>dep inv. addAll dep [e] inv) ds acc)) \<and>
         keys (fold (\<lambda>dep inv. addAll dep [e] inv) ds acc) = keys acc \<union> set ds \<union> (if ds = [] then {} else {e}) \<and>
         edge_rel (fold (\<lambda>dep inv. addAll dep [e] inv) ds acc) = edge_rel acc \<union> set ds \<times> {e}"
  using assms
proof (induction ds arbitrary: acc)
  case Nil
  then show ?case by simp
next
  case (Cons d ds)
  have d: "distinct (map fst (addAll d [e] acc))"
    using Cons.prems by (rule distinct_addAll)
  from Cons.IH[OF d] show ?case
    by (auto simp: keys_addAll edge_rel_addAll[OF Cons.prems])
qed

lemma invert_step:
  assumes "distinct (map fst acc)"
  shows "distinct (map fst (invert_step (k, ds) acc)) \<and>
         keys (invert_step (k, ds) acc) = keys acc \<union> {k} \<union> set ds \<and>
         edge_rel (invert_step (k, ds) acc) = edge_rel acc \<union> set ds \<times> {k}"
proof -
  have d: "distinct (map fst (addAll k [] acc))"
    using assms by (rule distinct_addAll)
  from invert_inner[OF d, of k ds] show ?thesis
    unfolding invert_step_def by (auto simp: keys_addAll edge_rel_addAll[OF assms])
qed

lemma invert_fold:
  assumes "distinct (map fst acc)"
  shows "distinct (map fst (fold invert_step g acc)) \<and>
         keys (fold invert_step g acc) = keys acc \<union> keys g \<union> Range (edge_rel g) \<and>
         edge_rel (fold invert_step g acc) = edge_rel acc \<union> (edge_rel g)\<inverse>"
  using assms
proof (induction g arbitrary: acc)
  case Nil
  then show ?case by (simp add: keys_def edge_rel_def)
next
  case (Cons p g)
  obtain k ds where p: "p = (k, ds)" by (cases p)
  note st = invert_step[OF Cons.prems, of k ds]
  have e: "edge_rel ((k, ds) # g) = {k} \<times> set ds \<union> edge_rel g"
    unfolding edge_rel_def by auto
  have ks: "keys ((k, ds) # g) = insert k (keys g)"
    by (simp add: keys_def)
  from Cons.IH[of "invert_step (k, ds) acc"] st show ?case
    unfolding p e ks by (simp only: fold_simps) blast
qed

lemma invert_fold_eq: "invert g = fold invert_step g []"
  by (rule invert_def)

lemma keys_invert: "keys (invert g) = keys g \<union> Range (edge_rel g)"
  using invert_fold[of "[]" g] by (simp add: invert_fold_eq keys_def)

lemma edge_rel_invert: "edge_rel (invert g) = (edge_rel g)\<inverse>"
  using invert_fold[of "[]" g] by (simp add: invert_fold_eq edge_rel_def)

lemma keys_invert_closed: "closed g \<Longrightarrow> keys (invert g) = keys g"
  unfolding keys_invert closed_iff by blast

lemma closed_invert: "closed (invert g)"
  unfolding closed_iff keys_invert edge_rel_invert using keys_Domain[of g] by auto

text \<open>
  C6: for a graph built by \<open>addAll\<close> calls, inverting twice gives a graph with the same
  nodes and the same edge relation; the inverted graph has every node of the graph,
  those without edges too, and has the edge from \<open>b\<close> to \<open>a\<close> exactly when the graph
  has the edge from \<open>a\<close> to \<open>b\<close>.
\<close>

theorem invert_involutive:
  "keys (invert (invert (build calls))) = keys (build calls) \<and>
   edge_rel (invert (invert (build calls))) = edge_rel (build calls) \<and>
   keys (invert (build calls)) = keys (build calls) \<and>
   edge_rel (invert (build calls)) = (edge_rel (build calls))\<inverse>"
  using keys_invert_closed[OF build_closed[of calls]] keys_invert_closed[OF closed_invert[of "build calls"]]
  by (simp add: edge_rel_invert)

section \<open>Reachability walk\<close>

lemma walk_loop_total: "All walk_loop_dom"
proof (relation "measure (\<lambda>(g, toVisit, seen). walk_measure g toVisit seen)", goal_cases)
  case 1
  show ?case by simp
next
  case (2 g toVisit seen nxt rest deps)
  from walk_measure_step[of g nxt deps rest seen] 2 show ?case by simp
qed

lemma set_set_add: "set (set_add x s) = insert x (set s)"
  by (auto simp: set_add_def)

lemma distinct_set_add: "distinct s \<Longrightarrow> distinct (set_add x s)"
  by (simp add: set_add_def)

lemma edge_map_of:
  "distinct (map fst g) \<Longrightarrow> map_of g a = Some ds \<Longrightarrow> (a, b) \<in> edge_rel g \<longleftrightarrow> b \<in> set ds"
  unfolding edge_rel_def by (auto dest: eq_key_imp_eq_value)

lemma walk_loop_correct:
  assumes "distinct (map fst g)" "closed g" "set toVisit \<subseteq> keys g"
    and "\<And>a b. (a, b) \<in> edge_rel g \<Longrightarrow> a \<in> set seen \<Longrightarrow> b \<in> set seen \<union> set toVisit"
  shows "\<exists>r. walk_loop g toVisit seen = Inr r \<and>
             set seen \<union> set toVisit \<subseteq> set r \<and>
             (\<forall>a b. (a, b) \<in> edge_rel g \<longrightarrow> a \<in> set r \<longrightarrow> b \<in> set r) \<and>
             (\<forall>n \<in> set r. n \<in> set seen \<or> (\<exists>q \<in> set toVisit. (q, n) \<in> (edge_rel g)\<^sup>*)) \<and>
             (distinct seen \<longrightarrow> distinct r)"
  using assms
proof (induction g toVisit seen rule: walk_loop.induct)
  case (1 g toVisit seen)
  show ?case
  proof (cases toVisit)
    case Nil
    have eq: "walk_loop g toVisit seen = Inr seen"
      unfolding Nil by (simp add: walk_loop.simps[of g "[]" seen])
    have cl: "\<forall>a b. (a, b) \<in> edge_rel g \<longrightarrow> a \<in> set seen \<longrightarrow> b \<in> set seen"
      using "1.prems"(4) unfolding Nil by simp
    show ?thesis
      unfolding eq using cl by (simp add: Nil)
  next
    case (Cons nxt rest)
    with "1.prems"(3) have "nxt \<in> keys g" by simp
    then obtain deps where look: "map_of g nxt = Some deps"
      unfolding keys_map_of by blast
    let ?q = "rest @ filter (\<lambda>dep. dep \<notin> set seen) deps"
    let ?s = "set_add nxt seen"
    note E = edge_map_of[OF "1.prems"(1) look]
    have sq: "set ?q = set rest \<union> (set deps - set seen)" by auto
    have ss: "set ?s = insert nxt (set seen)" by (rule set_set_add)
    have tv: "set toVisit = insert nxt (set rest)" unfolding Cons by simp
    have deps_keys: "set deps \<subseteq> keys g"
      using "1.prems"(2) E unfolding closed_iff by blast
    have q: "set ?q \<subseteq> keys g"
      using "1.prems"(3) deps_keys unfolding sq tv by blast
    have inv: "b \<in> set ?s \<union> set ?q" if ab: "(a, b) \<in> edge_rel g" and a: "a \<in> set ?s" for a b
    proof (cases "a = nxt")
      case True
      with ab E have "b \<in> set deps" by simp
      then show ?thesis unfolding sq ss by blast
    next
      case False
      with a have "a \<in> set seen" unfolding ss by simp
      from "1.prems"(4)[OF ab this] show ?thesis
        unfolding sq ss tv by blast
    qed
    have "\<exists>r. walk_loop g ?q ?s = Inr r \<and>
             set ?s \<union> set ?q \<subseteq> set r \<and>
             (\<forall>a b. (a, b) \<in> edge_rel g \<longrightarrow> a \<in> set r \<longrightarrow> b \<in> set r) \<and>
             (\<forall>n \<in> set r. n \<in> set ?s \<or> (\<exists>q \<in> set ?q. (q, n) \<in> (edge_rel g)\<^sup>*)) \<and>
             (distinct ?s \<longrightarrow> distinct r)"
    proof (rule "1.IH"[OF Cons look "1.prems"(1,2) q])
      fix a b
      assume "(a, b) \<in> edge_rel g" "a \<in> set ?s"
      then show "b \<in> set ?s \<union> set ?q" by (rule inv)
    qed
    then obtain r where r: "walk_loop g ?q ?s = Inr r"
      and sub: "set ?s \<union> set ?q \<subseteq> set r"
      and cl: "\<forall>a b. (a, b) \<in> edge_rel g \<longrightarrow> a \<in> set r \<longrightarrow> b \<in> set r"
      and up: "\<forall>n \<in> set r. n \<in> set ?s \<or> (\<exists>q \<in> set ?q. (q, n) \<in> (edge_rel g)\<^sup>*)"
      and di: "distinct ?s \<longrightarrow> distinct r"
      by blast
    have eq: "walk_loop g toVisit seen = Inr r"
      unfolding walk_loop.simps[of g toVisit seen] using r Cons look by simp
    have nxt_r: "nxt \<in> set r" using sub unfolding ss by blast
    have sub': "set seen \<union> set toVisit \<subseteq> set r"
    proof
      fix n assume n: "n \<in> set seen \<union> set toVisit"
      show "n \<in> set r"
      proof (cases "n \<in> set seen \<or> n \<in> set rest")
        case True
        then show ?thesis using sub unfolding ss sq by blast
      next
        case False
        with n have "n = nxt" unfolding tv by blast
        then show ?thesis using nxt_r by simp
      qed
    qed
    have up': "\<forall>n \<in> set r. n \<in> set seen \<or> (\<exists>q \<in> set toVisit. (q, n) \<in> (edge_rel g)\<^sup>*)"
    proof
      fix n assume "n \<in> set r"
      with up have "n \<in> set ?s \<or> (\<exists>q \<in> set ?q. (q, n) \<in> (edge_rel g)\<^sup>*)" by blast
      then consider "n \<in> set seen" | "n = nxt"
        | x where "x \<in> set rest" "(x, n) \<in> (edge_rel g)\<^sup>*"
        | x where "x \<in> set deps" "(x, n) \<in> (edge_rel g)\<^sup>*"
        unfolding ss sq by blast
      then show "n \<in> set seen \<or> (\<exists>q \<in> set toVisit. (q, n) \<in> (edge_rel g)\<^sup>*)"
      proof cases
        case 1
        then show ?thesis by blast
      next
        case 2
        have "(nxt, n) \<in> (edge_rel g)\<^sup>*" unfolding 2 by (rule rtrancl.rtrancl_refl)
        moreover have "nxt \<in> set toVisit" unfolding tv by blast
        ultimately show ?thesis by blast
      next
        case 3
        moreover from 3 have "x \<in> set toVisit" unfolding tv by blast
        ultimately show ?thesis by blast
      next
        case 4
        then have "(nxt, x) \<in> edge_rel g" using E by simp
        from this 4(2) have "(nxt, n) \<in> (edge_rel g)\<^sup>*" by (rule converse_rtrancl_into_rtrancl)
        moreover have "nxt \<in> set toVisit" unfolding tv by blast
        ultimately show ?thesis by blast
      qed
    qed
    have di': "distinct seen \<longrightarrow> distinct r"
      using di distinct_set_add[of seen nxt] by blast
    show ?thesis
      unfolding eq using sub' cl up' di' by blast
  qed
qed

lemma walk_correct:
  fixes g :: "'a graph"
  assumes "distinct (map fst g)" "closed g" "start \<in> keys g"
  shows "\<exists>seen. walk start g = Inr seen \<and> distinct seen \<and>
                set seen = {n. (start, n) \<in> (edge_rel g)\<^sup>*}"
proof -
  let ?e = "[] :: 'a list"
  have "\<exists>r. walk_loop g [start] ?e = Inr r \<and>
             set ?e \<union> set [start] \<subseteq> set r \<and>
             (\<forall>a b. (a, b) \<in> edge_rel g \<longrightarrow> a \<in> set r \<longrightarrow> b \<in> set r) \<and>
             (\<forall>n \<in> set r. n \<in> set ?e \<or> (\<exists>q \<in> set [start]. (q, n) \<in> (edge_rel g)\<^sup>*)) \<and>
             (distinct ?e \<longrightarrow> distinct r)"
  proof (rule walk_loop_correct[OF assms(1,2)])
    show "set [start] \<subseteq> keys g" using assms(3) by simp
  next
    fix a b assume "a \<in> set ?e"
    then show "b \<in> set ?e \<union> set [start]" by simp
  qed
  then obtain r where r: "walk_loop g [start] [] = Inr r" and s: "start \<in> set r"
    and cl: "\<forall>a b. (a, b) \<in> edge_rel g \<longrightarrow> a \<in> set r \<longrightarrow> b \<in> set r"
    and up: "\<forall>n \<in> set r. (start, n) \<in> (edge_rel g)\<^sup>*" and di: "distinct r"
    by auto
  have "n \<in> set r" if "(start, n) \<in> (edge_rel g)\<^sup>*" for n
    using that
  proof (induction rule: rtrancl_induct)
    case base
    show ?case by (rule s)
  next
    case (step y z)
    with cl show ?case by blast
  qed
  with up have "set r = {n. (start, n) \<in> (edge_rel g)\<^sup>*}" by blast
  with r di show ?thesis unfolding walk_def by blast
qed

text \<open>
  C7: for a graph built by \<open>addAll\<close> calls and a start node that is a key, \<open>walk\<close>
  returns exactly the nodes reachable from the start node along edges, the start node
  among them.
\<close>

theorem walk_reachable:
  assumes "start \<in> keys (build calls)"
  shows "\<exists>seen. walk start (build calls) = Inr seen \<and> distinct seen \<and>
                set seen = {n. (start, n) \<in> (edge_rel (build calls))\<^sup>*}"
  using walk_correct[OF build_distinct build_closed assms] .

theorem walk_reachable_witness:
  "''one'' \<in> keys (build example_manifests) \<and>
   (\<exists>seen. walk ''one'' (build example_manifests) = Inr seen \<and> distinct seen \<and>
           set seen = {n. (''one'', n) \<in> (edge_rel (build example_manifests))\<^sup>*})"
proof -
  have k: "''one'' \<in> keys (build example_manifests)"
    unfolding build_example by (simp add: keys_def)
  from k walk_reachable[OF k] show ?thesis by blast
qed

text \<open>
  C10: for a graph built by \<open>addAll\<close> calls, with or without cycles and self-loops,
  and a start node that is a key, the loop of \<open>walk\<close> terminates, and \<open>walk\<close> returns a
  set.  \<open>walk_loop_dom\<close> is the set of the arguments on which the recursion of
  \<open>walk_loop\<close>, that is the loop, comes to an end.
\<close>

theorem walk_terminates:
  assumes "start \<in> keys (build calls)"
  shows "walk_loop_dom (build calls, [start], []) \<and> (\<exists>seen. walk start (build calls) = Inr seen)"
proof
  show "walk_loop_dom (build calls, [start], [])"
    using walk_loop_total by blast
  show "\<exists>seen. walk start (build calls) = Inr seen"
    using walk_correct[OF build_distinct build_closed assms] by blast
qed

lemma build_cycle:
  "build [(''x'', [''y'', ''x'']), (''y'', [''x''])] = [(''x'', [''y'', ''x'']), (''y'', [''x''])]"
  by code_simp

theorem walk_terminates_witness:
  "''x'' \<in> keys (build [(''x'', [''y'', ''x'']), (''y'', [''x''])]) \<and>
   walk_loop_dom (build [(''x'', [''y'', ''x'']), (''y'', [''x''])], [''x''], []) \<and>
   (\<exists>seen. walk ''x'' (build [(''x'', [''y'', ''x'']), (''y'', [''x''])]) = Inr seen)"
proof -
  have k: "''x'' \<in> keys (build [(''x'', [''y'', ''x'']), (''y'', [''x''])])"
    unfolding build_cycle by (simp add: keys_def)
  from k walk_terminates[OF k] show ?thesis by blast
qed

section \<open>In-degrees\<close>

lemma counts_neighbour:
  assumes "counts D K c"
  shows "counts (count_neighbour nb D) (insert nb K) (c(nb := Suc (c nb)))"
proof -
  have d: "distinct (map fst D)"
    and m: "\<And>n. map_of D n = (if n \<in> K then Some (Num (int (c n))) else None)"
    and z: "\<And>n. n \<notin> K \<Longrightarrow> c n = 0"
    using assms unfolding counts_def by blast+
  have v: "num_add (or_zero (map_of D nb)) 1 = Num (int (Suc (c nb)))"
    using m[of nb] z[of nb] by (cases "nb \<in> K") simp_all
  show ?thesis
    unfolding counts_def count_neighbour_def Let_def v
    using d m z by (simp add: AList.distinct_update AList.update_conv')
qed

lemma counts_fold:
  assumes "counts D K c"
  shows "counts (fold count_neighbour ds D) (K \<union> set ds) (\<lambda>n. c n + count_list ds n)"
  using assms
proof (induction ds arbitrary: D K c)
  case Nil
  then show ?case by simp
next
  case (Cons d ds)
  have f: "(\<lambda>n. (c(d := Suc (c d))) n + count_list ds n) = (\<lambda>n. c n + count_list (d # ds) n)"
    by (rule ext) simp
  from Cons.IH[OF counts_neighbour[OF Cons.prems, of d]] show ?case
    unfolding f by simp
qed

lemma counts_node:
  assumes "counts D K c"
  shows "counts (if \<not> has node D then AList.update node (Num 0) D else D) (insert node K) c"
proof -
  have d: "distinct (map fst D)"
    and m: "\<And>n. map_of D n = (if n \<in> K then Some (Num (int (c n))) else None)"
    and z: "\<And>n. n \<notin> K \<Longrightarrow> c n = 0"
    using assms unfolding counts_def by blast+
  have h: "has node D \<longleftrightarrow> node \<in> K"
    using m[of node] map_of_eq_None_iff[of D node] unfolding has_def
    by (cases "node \<in> K") auto
  show ?thesis
  proof (cases "node \<in> K")
    case True
    then have "insert node K = K" by blast
    with True h assms show ?thesis by simp
  next
    case False
    with h z[of node] show ?thesis
      unfolding counts_def using d m z
      by (simp add: AList.distinct_update AList.update_conv')
  qed
qed

lemma counts_step:
  assumes "counts D K c"
  shows "counts (indegrees_step (k, ds) D) (insert k K \<union> set ds) (\<lambda>n. c n + count_list ds n)"
  unfolding indegrees_step_def prod.case
  by (rule counts_fold[OF counts_node[OF assms]])

lemma edge_rel_Cons: "edge_rel ((k, ds) # g) = {k} \<times> set ds \<union> edge_rel g"
  unfolding edge_rel_def by auto

lemma counts_graph:
  assumes "counts D K c"
  shows "counts (fold indegrees_step g D) (K \<union> keys g \<union> Range (edge_rel g)) (\<lambda>n. c n + in_count g n)"
  using assms
proof (induction g arbitrary: D K c)
  case Nil
  then show ?case by (simp add: keys_def edge_rel_def in_count_def)
next
  case (Cons p g)
  obtain k ds where p: "p = (k, ds)" by (cases p)
  have s: "insert k K \<union> set ds \<union> keys g \<union> Range (edge_rel g)
           = K \<union> keys ((k, ds) # g) \<union> Range (edge_rel ((k, ds) # g))"
    unfolding edge_rel_Cons by (auto simp: keys_def)
  have f: "(\<lambda>n. c n + count_list ds n + in_count g n) = (\<lambda>n. c n + in_count ((k, ds) # g) n)"
    by (rule ext) (simp add: in_count_def)
  from Cons.IH[OF counts_step[OF Cons.prems, of k ds]] show ?case
    unfolding p s[symmetric] f[symmetric] by simp
qed

lemma counts_indegrees: "counts (indegrees g) (keys g \<union> Range (edge_rel g)) (in_count g)"
proof -
  have "counts [] {} (\<lambda>n. 0)" by (simp add: counts_def)
  from counts_graph[OF this, of g] show ?thesis by (simp add: indegrees_def)
qed

lemma in_count_pos: "0 < in_count g n \<longleftrightarrow> n \<in> Range (edge_rel g)"
proof (induction g)
  case Nil
  show ?case by (simp add: in_count_def edge_rel_def)
next
  case (Cons p g)
  obtain k ds where p: "p = (k, ds)" by (cases p)
  have c: "0 < count_list ds n \<longleftrightarrow> n \<in> set ds"
    by (simp add: count_list_0_iff zero_less_iff_neq_zero)
  have "in_count (p # g) n = count_list ds n + in_count g n"
    by (simp add: in_count_def p)
  then show ?case
    unfolding p edge_rel_Cons using Cons.IH c by auto
qed

lemma finite_edge_rel: "finite (edge_rel g)"
  unfolding edge_rel_list by simp

lemma in_degree_pos: "0 < in_degree g n \<longleftrightarrow> n \<in> Range (edge_rel g)"
proof -
  have "{m. (m, n) \<in> edge_rel g} \<subseteq> Domain (edge_rel g)" by blast
  then have "finite {m. (m, n) \<in> edge_rel g}"
    by (rule finite_subset) (simp add: finite_edge_rel finite_Domain)
  then have "0 < in_degree g n \<longleftrightarrow> {m. (m, n) \<in> edge_rel g} \<noteq> {}"
    unfolding in_degree_def by (simp add: card_gt_0_iff)
  then show ?thesis by blast
qed

lemma sources_set:
  assumes "distinct (map fst D)"
  shows "set (map fst (filter (\<lambda>(node, count). count = Num 0) D)) = {n. map_of D n = Some (Num 0)}"
  using assms by (auto simp: image_iff)

text \<open>
  C8: when every node has an edge into it, no node of the in-degree table has the
  count 0, the list of sources is empty and \<open>topoSort\<close> fails with the no-source error
  instead of returning an ordering.  This is so for every graph, the graph with the two
  edges from \<open>x\<close> to \<open>y\<close> and from \<open>y\<close> to \<open>x\<close> among them.
\<close>

theorem topoSort_no_source:
  assumes "g \<noteq> []" and "\<forall>n \<in> keys g. 1 \<le> in_degree g n"
  shows "topoSort g = Inl NoSource"
proof -
  note c = counts_indegrees[of g, unfolded counts_def]
  have "map_of (indegrees g) n \<noteq> Some (Num 0)" for n
  proof (cases "n \<in> keys g \<union> Range (edge_rel g)")
    case True
    have "n \<in> Range (edge_rel g)"
    proof (cases "n \<in> keys g")
      case True
      with assms(2) have "0 < in_degree g n" by fastforce
      then show ?thesis by (simp add: in_degree_pos)
    next
      case False
      with True show ?thesis by blast
    qed
    then have "0 < in_count g n" by (simp add: in_count_pos)
    with c True show ?thesis by simp
  next
    case False
    with c show ?thesis by simp
  qed
  note no_zero = this
  have d: "distinct (map fst (indegrees g))" using c by blast
  have "set (map fst (filter (\<lambda>(node, count). count = Num 0) (indegrees g)))
        = {n. map_of (indegrees g) n = Some (Num 0)}"
    by (rule sources_set[OF d])
  also have "\<dots> = {}" using no_zero by blast
  finally have "filter (\<lambda>(node, count). count = Num 0) (indegrees g) = []"
    by (auto simp: filter_empty_conv)
  then show ?thesis
    unfolding topoSort_def Let_def by simp
qed

lemma build_two_cycle: "build [(''x'', [''y'']), (''y'', [''x''])] = [(''x'', [''y'']), (''y'', [''x''])]"
  by code_simp

theorem topoSort_no_source_witness:
  "build [(''x'', [''y'']), (''y'', [''x''])] \<noteq> [] \<and>
   in_degree (build [(''x'', [''y'']), (''y'', [''x''])]) ''x'' = 1 \<and>
   in_degree (build [(''x'', [''y'']), (''y'', [''x''])]) ''y'' = 1 \<and>
   topoSort (build [(''x'', [''y'']), (''y'', [''x''])]) = Inl NoSource"
proof -
  let ?g = "build [(''x'', [''y'']), (''y'', [''x''])]"
  have e: "edge_rel ?g = {(''x'', ''y''), (''y'', ''x'')}"
    unfolding build_two_cycle edge_rel_list by (simp add: edge_list_def)
  have x: "{m. (m, ''x'') \<in> edge_rel ?g} = {''y''}" unfolding e by auto
  have y: "{m. (m, ''y'') \<in> edge_rel ?g} = {''x''}" unfolding e by auto
  have dx: "in_degree ?g ''x'' = 1" unfolding in_degree_def x by simp
  have dy: "in_degree ?g ''y'' = 1" unfolding in_degree_def y by simp
  have k: "keys ?g = {''x'', ''y''}" unfolding build_two_cycle by (simp add: keys_def)
  have ne: "?g \<noteq> []" unfolding build_two_cycle by simp
  have all: "\<forall>n \<in> keys ?g. 1 \<le> in_degree ?g n" unfolding k using dx dy by simp
  from ne dx dy topoSort_no_source[OF ne all] show ?thesis by blast
qed

section \<open>Topological sort\<close>

lemma before_append: "before xs a b \<Longrightarrow> before (xs @ [x]) a b"
proof -
  assume "before xs a b"
  then obtain pre post where "xs = pre @ a # post" "b \<notin> set pre" "b \<noteq> a" "b \<in> set post"
    unfolding before_def by blast
  then have "xs @ [x] = pre @ a # (post @ [x]) \<and> b \<notin> set pre \<and> b \<noteq> a \<and> b \<in> set (post @ [x])"
    by simp
  then show ?thesis unfolding before_def by blast
qed

lemma before_snoc:
  assumes "a \<in> set xs" "x \<notin> set xs"
  shows "before (xs @ [x]) a x"
proof -
  from assms(1) obtain pre post where xs: "xs = pre @ a # post"
    by (auto dest: split_list)
  with assms(2) have "xs @ [x] = pre @ a # (post @ [x]) \<and> x \<notin> set pre \<and> x \<noteq> a \<and> x \<in> set (post @ [x])"
    by auto
  then show ?thesis unfolding before_def by blast
qed

lemma before_hd: "before xs a b \<Longrightarrow> b \<noteq> hd xs"
proof
  assume "before xs a b" and b: "b = hd xs"
  then obtain pre post where xs: "xs = pre @ a # post" and p: "b \<notin> set pre" and n: "b \<noteq> a"
    unfolding before_def by blast
  show False
  proof (cases pre)
    case Nil
    with xs b n show False by simp
  next
    case (Cons y ys)
    with xs b p show False by simp
  qed
qed

lemma pending_absent:
  "x \<notin> set (map fst g) \<Longrightarrow> pending g (done @ [x]) n = pending g done n"
proof -
  assume "x \<notin> set (map fst g)"
  then have "filter (\<lambda>(k, ds). n \<in> set ds \<and> k \<notin> set (done @ [x])) g
             = filter (\<lambda>(k, ds). n \<in> set ds \<and> k \<notin> set done) g"
    by (intro filter_cong) force+
  then show ?thesis by (simp add: pending_def)
qed

lemma pending_Cons:
  "pending ((k, ds) # g) done n = (if n \<in> set ds \<and> k \<notin> set done then 1 else 0) + pending g done n"
  by (simp add: pending_def)

lemma pending_snoc:
  assumes "distinct (map fst g)" "map_of g x = Some ds" "x \<notin> set done"
  shows "pending g done n = pending g (done @ [x]) n + (if n \<in> set ds then 1 else 0)"
  using assms(1,2)
proof (induction g)
  case Nil
  then show ?case by simp
next
  case (Cons p g)
  obtain k es where p: "p = (k, es)" by (cases p)
  show ?case
  proof (cases "k = x")
    case True
    with Cons.prems p have es: "es = ds" and ab: "x \<notin> set (map fst g)" by auto
    show ?thesis
      unfolding p pending_Cons pending_absent[OF ab] using True es assms(3) by simp
  next
    case False
    with Cons.prems p have "distinct (map fst g)" "map_of g x = Some ds" by auto
    from Cons.IH[OF this] show ?thesis
      unfolding p pending_Cons using False by simp
  qed
qed

lemma pending_zero: "pending g done n = 0 \<longleftrightarrow> (\<forall>a. (a, n) \<in> edge_rel g \<longrightarrow> a \<in> set done)"
  unfolding pending_def edge_rel_def by (auto simp: filter_empty_conv)

lemma count_list_distinct: "distinct xs \<Longrightarrow> count_list xs x = (if x \<in> set xs then 1 else 0)"
  by (induction xs) auto

lemma pending_nil: "sets_distinct g \<Longrightarrow> pending g [] n = in_count g n"
proof (induction g)
  case Nil
  show ?case by (simp add: pending_def in_count_def)
next
  case (Cons p g)
  obtain k ds where p: "p = (k, ds)" by (cases p)
  from Cons.prems have d: "distinct ds" and r: "sets_distinct g"
    unfolding sets_distinct_def p by auto
  have c: "count_list ds n = (if n \<in> set ds then 1 else 0)"
    using d by (rule count_list_distinct)
  have "in_count ((k, ds) # g) n = count_list ds n + in_count g n"
    by (simp add: in_count_def)
  with Cons.IH[OF r] c show ?case
    unfolding p pending_Cons by simp
qed

lemma relax_eq:
  "relax d (S, D) =
     (if minus_one (map_of D d) = Num 0 then S @ [d] else S, AList.update d (minus_one (map_of D d)) D)"
  by (simp add: relax_def Let_def)

lemma fold_relax:
  assumes "distinct ds"
  shows "fst (fold relax ds (S, D)) = S @ filter (\<lambda>d. minus_one (map_of D d) = Num 0) ds \<and>
         (\<forall>n. map_of (snd (fold relax ds (S, D))) n
                = (if n \<in> set ds then Some (minus_one (map_of D n)) else map_of D n)) \<and>
         (distinct (map fst D) \<longrightarrow> distinct (map fst (snd (fold relax ds (S, D)))))"
  using assms
proof (induction ds arbitrary: S D)
  case Nil
  show ?case by simp
next
  case (Cons d ds)
  let ?v = "minus_one (map_of D d)"
  let ?S = "if ?v = Num 0 then S @ [d] else S"
  let ?D = "AList.update d ?v D"
  from Cons.prems have d: "d \<notin> set ds" and ds: "distinct ds" by simp_all
  have same: "map_of ?D e = map_of D e" if "e \<in> set ds" for e
    using that d by (auto simp: AList.update_conv')
  have filt: "filter (\<lambda>e. minus_one (map_of ?D e) = Num 0) ds
              = filter (\<lambda>e. minus_one (map_of D e) = Num 0) ds"
    by (rule filter_cong) (simp_all add: same)
  have step: "fold relax (d # ds) (S, D) = fold relax ds (?S, ?D)"
    by (simp add: relax_eq)
  note IH = Cons.IH[OF ds, of ?S ?D]
  have 1: "fst (fold relax (d # ds) (S, D)) = S @ filter (\<lambda>d. minus_one (map_of D d) = Num 0) (d # ds)"
    unfolding step using IH filt by simp
  have 2: "map_of (snd (fold relax (d # ds) (S, D))) n
           = (if n \<in> set (d # ds) then Some (minus_one (map_of D n)) else map_of D n)" for n
  proof -
    have "map_of (snd (fold relax ds (?S, ?D))) n
          = (if n \<in> set ds then Some (minus_one (map_of ?D n)) else map_of ?D n)"
      using IH by blast
    then show ?thesis
      unfolding step using d by (auto simp: AList.update_conv' same)
  qed
  have 3: "distinct (map fst D) \<longrightarrow> distinct (map fst (snd (fold relax (d # ds) (S, D))))"
    unfolding step using IH by (simp add: AList.distinct_update)
  from 1 2 3 show ?case by blast
qed

lemma kahn_init:
  assumes "sets_distinct g" "closed g"
  shows "kahn_inv g (map fst (filter (\<lambda>(node, count). count = Num 0) (indegrees g))) (indegrees g) []"
proof -
  let ?D = "indegrees g"
  note c = counts_indegrees[of g, unfolded counts_def]
  have K: "keys g \<union> Range (edge_rel g) = keys g"
    using assms(2) unfolding closed_iff by blast
  have d: "distinct (map fst ?D)" using c by blast
  have m: "map_of ?D n = Some (Num (int (pending g [] n)))" if "n \<in> keys g" for n
    using c that unfolding K pending_nil[OF assms(1)] by simp
  have m': "map_of ?D n = None" if "n \<notin> keys g" for n
    using c that unfolding K by simp
  have s: "set (map fst (filter (\<lambda>(node, count). count = Num 0) ?D))
           = {n. n \<in> keys g \<and> n \<notin> set [] \<and> pending g [] n = 0}"
    unfolding sources_set[OF d]
  proof (intro set_eqI iffI; clarify)
    fix n assume z: "map_of ?D n = Some (Num 0)"
    then have k: "n \<in> keys g" using m'[of n] by (cases "n \<in> keys g") simp_all
    with z m[OF k] show "n \<in> keys g \<and> n \<notin> set [] \<and> pending g [] n = 0" by simp
  next
    fix n assume "n \<in> keys g" "pending g [] n = 0"
    with m[of n] show "map_of ?D n = Some (Num 0)" by simp
  qed
  have ds: "distinct (map fst (filter (\<lambda>(node, count). count = Num 0) ?D))"
    using d by (rule distinct_map_filter)
  show ?thesis
    unfolding kahn_inv_def using d m s ds by simp
qed

lemma kahn_final:
  assumes "acyclic (edge_rel g)" "kahn_inv g [] D out"
  shows "set out = keys g"
proof (rule ccontr)
  assume ne: "set out \<noteq> keys g"
  from assms(2) have sub: "set out \<subseteq> keys g"
    unfolding kahn_inv_def by blast
  from assms(2) have "set [] = {n. n \<in> keys g \<and> n \<notin> set out \<and> pending g out n = 0}"
    unfolding kahn_inv_def by blast
  then have em: "\<And>n. n \<in> keys g \<Longrightarrow> n \<notin> set out \<Longrightarrow> pending g out n \<noteq> 0"
    by auto
  from ne sub obtain u where u: "u \<in> keys g - set out" by blast
  have w: "wf (edge_rel g)"
    using finite_edge_rel assms(1) by (rule finite_acyclic_wf)
  obtain z where z: "z \<in> keys g - set out"
    and mn: "\<And>y. (y, z) \<in> edge_rel g \<Longrightarrow> y \<notin> keys g - set out"
    by (rule wfE_min[OF w u]) blast
  from z have "pending g out z \<noteq> 0" using em by simp
  then obtain a where a: "(a, z) \<in> edge_rel g" "a \<notin> set out"
    unfolding pending_zero by blast
  from a(1) have "a \<in> keys g" using keys_Domain[of g] by blast
  with a(2) have "a \<in> keys g - set out" by blast
  with mn[OF a(1)] show False by blast
qed

lemma before_mem: "before xs a b \<Longrightarrow> a \<in> set xs"
  unfolding before_def by auto

lemma kahn_step:
  assumes dk: "distinct (map fst g)" and sd: "sets_distinct g" and cl: "closed g"
    and inv: "kahn_inv g (B @ [x]) D out"
    and st: "st = fold relax (case map_of g x of None \<Rightarrow> [] | Some ns \<Rightarrow> ns) (B, D)"
  shows "kahn_inv g (fst st) (snd st) (out @ [x])"
proof -
  from inv have i1: "distinct (map fst D)"
    and i2: "\<And>n. n \<in> keys g \<Longrightarrow> map_of D n = Some (Num (int (pending g out n)))"
    and i3: "distinct (B @ [x])" and i4: "distinct out"
    and i5: "set (B @ [x]) = {n. n \<in> keys g \<and> n \<notin> set out \<and> pending g out n = 0}"
    and i6: "set out \<subseteq> keys g"
    and i7: "\<And>a b. (a, b) \<in> edge_rel g \<Longrightarrow> b \<in> set out \<Longrightarrow> before out a b"
    unfolding kahn_inv_def by blast+
  have "x \<in> set (B @ [x])" by simp
  then have xk: "x \<in> keys g" and xo: "x \<notin> set out" and xp: "pending g out x = 0"
    unfolding i5 by blast+
  from xk obtain ds where look: "map_of g x = Some ds"
    unfolding keys_map_of by blast
  have dds: "distinct ds"
    using sd look unfolding sets_distinct_map_of[OF dk] by blast
  note E = edge_map_of[OF dk look]
  have dsk: "set ds \<subseteq> keys g"
    using cl E unfolding closed_iff by blast
  note P = pending_snoc[OF dk look xo]
  have st': "st = fold relax ds (B, D)"
    unfolding st look by simp
  note fr = fold_relax[OF dds, of B D, folded st']
  have dec: "minus_one (map_of D d) = Num (int (pending g (out @ [x]) d))" if "d \<in> set ds" for d
  proof -
    from that dsk have "map_of D d = Some (Num (int (pending g out d)))" by (intro i2) blast
    moreover from P[of d] that have "int (pending g out d) - 1 = int (pending g (out @ [x]) d)" by simp
    ultimately show ?thesis by simp
  qed
  have "filter (\<lambda>d. minus_one (map_of D d) = Num 0) ds = filter (\<lambda>d. pending g (out @ [x]) d = 0) ds"
    by (rule filter_cong) (simp_all add: dec)
  with fr have S': "fst st = B @ filter (\<lambda>d. pending g (out @ [x]) d = 0) ds"
    by simp
  have n1: "distinct (map fst (snd st))"
    using fr i1 by blast
  have n2: "map_of (snd st) n = Some (Num (int (pending g (out @ [x]) n)))" if "n \<in> keys g" for n
  proof (cases "n \<in> set ds")
    case True
    with fr have "map_of (snd st) n = Some (minus_one (map_of D n))" by simp
    with dec[OF True] show ?thesis by simp
  next
    case False
    with fr have "map_of (snd st) n = map_of D n" by simp
    with i2[OF that] P[of n] False show ?thesis by simp
  qed
  have n4: "distinct (out @ [x])"
    using i4 xo by simp
  have n6: "set (out @ [x]) \<subseteq> keys g"
    using i6 xk by simp
  have n7: "before (out @ [x]) a b" if ab: "(a, b) \<in> edge_rel g" and b: "b \<in> set (out @ [x])" for a b
  proof (cases "b \<in> set out")
    case True
    from i7[OF ab True] show ?thesis by (rule before_append)
  next
    case False
    with b have bx: "b = x" by simp
    with ab xp have "a \<in> set out" unfolding pending_zero by blast
    then show ?thesis unfolding bx using xo by (rule before_snoc)
  qed
  have Bset: "n \<in> set B \<longleftrightarrow> n \<noteq> x \<and> n \<in> keys g \<and> n \<notin> set out \<and> pending g out n = 0" for n
  proof -
    have "n \<in> set B \<longleftrightarrow> n \<noteq> x \<and> n \<in> set (B @ [x])" using i3 by auto
    then show ?thesis unfolding i5 by blast
  qed
  have no_self: "x \<notin> set ds"
  proof
    assume "x \<in> set ds"
    with P[of x] xp show False by simp
  qed
  have fresh: "d \<notin> set out" if "d \<in> set ds" for d
  proof
    assume "d \<in> set out"
    moreover from that have "(x, d) \<in> edge_rel g" using E by simp
    ultimately have "before out x d" by (intro i7)
    then have "x \<in> set out" by (rule before_mem)
    with xo show False by blast
  qed
  have n5: "set (fst st) = {n. n \<in> keys g \<and> n \<notin> set (out @ [x]) \<and> pending g (out @ [x]) n = 0}"
  proof (intro set_eqI iffI)
    fix n assume "n \<in> set (fst st)"
    then consider "n \<in> set B" | "n \<in> set ds" "pending g (out @ [x]) n = 0"
      unfolding S' by auto
    then show "n \<in> {n. n \<in> keys g \<and> n \<notin> set (out @ [x]) \<and> pending g (out @ [x]) n = 0}"
    proof cases
      case 1
      then have "n \<noteq> x" "n \<in> keys g" "n \<notin> set out" "pending g out n = 0"
        unfolding Bset by blast+
      moreover from P[of n] \<open>pending g out n = 0\<close> have "pending g (out @ [x]) n = 0" by simp
      ultimately show ?thesis by simp
    next
      case 2
      from 2(1) no_self have "n \<noteq> x" by blast
      moreover from 2(1) dsk have "n \<in> keys g" by blast
      moreover from fresh[OF 2(1)] have "n \<notin> set out" .
      ultimately show ?thesis using 2(2) by simp
    qed
  next
    fix n assume "n \<in> {n. n \<in> keys g \<and> n \<notin> set (out @ [x]) \<and> pending g (out @ [x]) n = 0}"
    then have k: "n \<in> keys g" and nx: "n \<noteq> x" and no: "n \<notin> set out"
      and p: "pending g (out @ [x]) n = 0" by simp_all
    show "n \<in> set (fst st)"
    proof (cases "n \<in> set ds")
      case True
      with p show ?thesis unfolding S' by simp
    next
      case False
      with P[of n] p have "pending g out n = 0" by simp
      with k nx no have "n \<in> set B" unfolding Bset by blast
      then show ?thesis unfolding S' by simp
    qed
  qed
  have n3: "distinct (fst st)"
  proof -
    have "distinct B" using i3 by simp
    moreover have "distinct (filter (\<lambda>d. pending g (out @ [x]) d = 0) ds)"
      using dds by simp
    moreover have "set B \<inter> set (filter (\<lambda>d. pending g (out @ [x]) d = 0) ds) = {}"
    proof (rule ccontr)
      assume "set B \<inter> set (filter (\<lambda>d. pending g (out @ [x]) d = 0) ds) \<noteq> {}"
      then obtain n where "n \<in> set B" "n \<in> set ds" by auto
      then have "pending g out n = 0" "n \<in> set ds" unfolding Bset by blast+
      with P[of n] show False by simp
    qed
    ultimately show ?thesis unfolding S' by simp
  qed
  show ?thesis
    unfolding kahn_inv_def using n1 n2 n3 n4 n5 n6 n7 by blast
qed

lemma topo_loop_inv:
  assumes "distinct (map fst g)" "sets_distinct g" "closed g" "kahn_inv g sources D out"
  shows "\<exists>D'. kahn_inv g [] D' (topo_loop g sources D out)"
  using assms
proof (induction g sources D out rule: topo_loop.induct)
  case (1 g sources D out)
  show ?case
  proof (cases "sources = []")
    case True
    have "topo_loop g sources D out = out"
      unfolding True by (simp add: topo_loop.simps[of g "[]" D out])
    with "1.prems"(4) True show ?thesis by auto
  next
    case False
    then obtain B x where s: "sources = B @ [x]"
      by (cases sources rule: rev_cases) auto
    define st where "st = fold relax (case map_of g x of None \<Rightarrow> [] | Some ns \<Rightarrow> ns) (B, D)"
    have eq: "topo_loop g sources D out = topo_loop g (fst st) (snd st) (out @ [x])"
      by (subst topo_loop.simps) (simp add: Let_def st_def s)
    have st': "st = fold relax (case map_of g (last sources) of None \<Rightarrow> [] | Some ns \<Rightarrow> ns)
                      (butlast sources, D)"
      unfolding st_def s by simp
    have k: "kahn_inv g (fst st) (snd st) (out @ [x])"
      using "1.prems"(1,2,3) "1.prems"(4)[unfolded s] st_def by (rule kahn_step)
    have "\<exists>D'. kahn_inv g [] D' (topo_loop g (fst st) (snd st) (out @ [last sources]))"
      using False refl refl st' "1.prems"(1,2,3) k[folded s[THEN arg_cong[where f = last], simplified]]
      by (rule "1.IH")
    then have "\<exists>D'. kahn_inv g [] D' (topo_loop g (fst st) (snd st) (out @ [x]))"
      unfolding s by simp
    then show ?thesis unfolding eq .
  qed
qed

text \<open>
  C1: for a graph that is built by \<open>addAll\<close> calls, is not empty and has no directed
  cycle, \<open>topoSort\<close> returns an ordering that holds every node of the graph exactly
  once and in which, for every edge from \<open>a\<close> to \<open>b\<close>, \<open>a\<close> comes before \<open>b\<close>; the
  ordering starts with a node of in-degree zero.
\<close>

theorem topoSort_valid:
  assumes "build calls \<noteq> []" and "acyclic (edge_rel (build calls))"
  shows "\<exists>out. topoSort (build calls) = Inr out \<and>
               distinct out \<and> set out = keys (build calls) \<and>
               (\<forall>a b. (a, b) \<in> edge_rel (build calls) \<longrightarrow> before out a b) \<and>
               in_degree (build calls) (hd out) = 0"
proof -
  let ?g = "build calls"
  let ?D = "indegrees ?g"
  let ?S = "map fst (filter (\<lambda>(node, count). count = Num 0) ?D)"
  let ?out = "topo_loop ?g ?S ?D []"
  note dk = build_distinct[of calls] and sd = build_sets_distinct[of calls]
    and cl = build_closed[of calls]
  have init: "kahn_inv ?g ?S ?D []"
    using sd cl by (rule kahn_init)
  have src: "?S \<noteq> []"
  proof
    assume "?S = []"
    with init have "kahn_inv ?g [] ?D []" by simp
    with assms(2) have "set [] = keys ?g" by (rule kahn_final)
    with assms(1) show False by (simp add: keys_def)
  qed
  from topo_loop_inv[OF dk sd cl init] obtain D' where fin: "kahn_inv ?g [] D' ?out"
    by blast
  have all: "set ?out = keys ?g"
    using assms(2) fin by (rule kahn_final)
  from fin have di: "distinct ?out"
    and ord: "\<And>a b. (a, b) \<in> edge_rel ?g \<Longrightarrow> b \<in> set ?out \<Longrightarrow> before ?out a b"
    unfolding kahn_inv_def by blast+
  have "length ?out = card (set ?out)"
    using di by (simp add: distinct_card)
  also have "\<dots> = card (set (map fst ?g))"
    unfolding all keys_def ..
  also have "\<dots> = length (map fst ?g)"
    using dk by (rule distinct_card)
  also have "\<dots> = length ?g"
    by simp
  finally have len: "length ?out = length ?g" .
  have res: "topoSort ?g = Inr ?out"
    unfolding topoSort_def Let_def using src len by simp
  have ord': "before ?out a b" if "(a, b) \<in> edge_rel ?g" for a b
  proof -
    from that have "b \<in> keys ?g" using cl unfolding closed_iff by blast
    with ord[OF that] show ?thesis unfolding all by blast
  qed
  have "{m. (m, hd ?out) \<in> edge_rel ?g} = {}"
    using ord' before_hd by fastforce
  then have first: "in_degree ?g (hd ?out) = 0"
    unfolding in_degree_def by simp
  from res di all ord' first show ?thesis by blast
qed

theorem topoSort_valid_witness:
  "build example_manifests \<noteq> [] \<and> acyclic (edge_rel (build example_manifests)) \<and>
   (\<exists>out. topoSort (build example_manifests) = Inr out \<and>
          distinct out \<and> set out = keys (build example_manifests) \<and>
          (\<forall>a b. (a, b) \<in> edge_rel (build example_manifests) \<longrightarrow> before out a b) \<and>
          in_degree (build example_manifests) (hd out) = 0)"
proof -
  have ne: "build example_manifests \<noteq> []"
    unfolding build_example by simp
  from ne acyclic_example topoSort_valid[OF ne acyclic_example] show ?thesis by blast
qed

end
